theory Spec2Isabelle
  imports Main "HOL-Library.Sublist" "HOL-Library.Multiset" "HOL-Library.Word"
begin

section \<open>Data model\<close>

text \<open>
  The entry types of \<open>mobiletto-common\<close>. The driver uses \<open>M_FILE\<close> and \<open>M_DIR\<close>; its
  older JavaScript source imports the other two as well.
\<close>

datatype mtype = M_FILE | M_DIR | M_LINK | M_SPECIAL

type_synonym byte = "8 word"

text \<open>
  A \<open>Buffer\<close> is a list of bytes. The \<open>bytes\<close> field of a stored object is an array that
  \<open>write\<close> fills with the numbers of the chunks (\<open>bytes.push(...chunk)\<close>); \<open>read\<close> also
  accepts the older representation, an array of strings, which it recognises by
  \<open>typeof bytes[0] === "string"\<close>.
\<close>

datatype payload = Bytes "byte list" | Strings "string list"

text \<open>
  \<open>MobilettoMetadata\<close> with the optional \<open>bytes\<close> of \<open>IdbMetadata\<close>. An object that
  \<open>write\<close> stores has all five fields; the directory object that \<open>_list\<close> builds has
  \<open>type\<close> and \<open>name\<close> only, so the other fields are optional.
\<close>

record metadata =
  name :: string
  mtype :: mtype
  bytes :: "payload option"
  msize :: "nat option"
  mtime :: "nat option"

datatype error = MobilettoError string | MobilettoNotFoundError string

text \<open>
  A promise is resolved with a value, rejected with an error, or never settled
  (\<open>Pending\<close>): several paths of the driver neither call \<open>resolve\<close> nor \<open>reject\<close>.
\<close>

datatype 'a promise = Resolved 'a | Rejected error | Pending

section \<open>The object store\<close>

text \<open>
  The object store \<open>rootStore\<close> of IndexedDB has out-of-line keys: \<open>put(value, key)\<close>.
  It is an association list in ascending key order, as the engine keeps it; string keys
  are ordered by their code units. The requests of the engine succeed in this model: its
  \<open>onerror\<close> events come from outside the program.
\<close>

type_synonym store = "(string \<times> metadata) list"

fun key_less :: "string \<Rightarrow> string \<Rightarrow> bool" where
  "key_less [] [] = False"
| "key_less [] (y # ys) = True"
| "key_less (x # xs) [] = False"
| "key_less (x # xs) (y # ys) =
     ((of_char x :: nat) < of_char y \<or> (x = y \<and> key_less xs ys))"

definition getAll :: "store \<Rightarrow> metadata list" where
  "getAll db = map snd db"

definition get :: "store \<Rightarrow> string \<Rightarrow> metadata option" where
  "get db k = map_of db k"

definition delete :: "store \<Rightarrow> string \<Rightarrow> store" where
  "delete db k = filter (\<lambda>kv. fst kv \<noteq> k) db"

fun insert_key :: "string \<Rightarrow> metadata \<Rightarrow> store \<Rightarrow> store" where
  "insert_key k v [] = [(k, v)]"
| "insert_key k v (kv # db) =
     (if key_less k (fst kv) then (k, v) # kv # db else kv # insert_key k v db)"

definition put :: "store \<Rightarrow> metadata \<Rightarrow> string \<Rightarrow> store" where
  "put db v k = insert_key k v (delete db k)"

text \<open>
  What \<open>write\<close> and \<open>remove\<close> maintain: keys are unique, every object is stored under
  its own name, and every stored object is a file.
\<close>

definition store_inv :: "store \<Rightarrow> bool" where
  "store_inv db \<longleftrightarrow>
     distinct (map fst db) \<and> list_all (\<lambda>kv. name (snd kv) = fst kv \<and> mtype (snd kv) = M_FILE) db"

section \<open>Strings and arrays of the host language\<close>

definition startsWith :: "string \<Rightarrow> string \<Rightarrow> bool" where
  "startsWith s p = prefix p s"

definition endsWith :: "string \<Rightarrow> string \<Rightarrow> bool" where
  "endsWith s p = prefix (rev p) (rev s)"

text \<open>\<open>s.indexOf(c, pos)\<close> for a one-character search string; \<open>None\<close> is \<open>-1\<close>.\<close>

fun index_in :: "char \<Rightarrow> string \<Rightarrow> nat option" where
  "index_in c [] = None"
| "index_in c (x # xs) =
     (if x = c then Some 0 else (case index_in c xs of None \<Rightarrow> None | Some i \<Rightarrow> Some (Suc i)))"

definition indexOf :: "string \<Rightarrow> char \<Rightarrow> nat \<Rightarrow> nat option" where
  "indexOf s c pos =
     (case index_in c (drop pos s) of None \<Rightarrow> None | Some i \<Rightarrow> Some (pos + i))"

text \<open>\<open>s.substring(0, n)\<close>: the characters before index \<open>n\<close>.\<close>

definition substring0 :: "string \<Rightarrow> nat \<Rightarrow> string" where
  "substring0 s n = take n s"

text \<open>\<open>xs.findIndex(p)\<close>; \<open>None\<close> is \<open>-1\<close>.\<close>

fun findIndex :: "('a \<Rightarrow> bool) \<Rightarrow> 'a list \<Rightarrow> nat option" where
  "findIndex p [] = None"
| "findIndex p (x # xs) =
     (if p x then Some 0 else (case findIndex p xs of None \<Rightarrow> None | Some i \<Rightarrow> Some (Suc i)))"

text \<open>
  \<open>xs.sort(cmp)\<close> is a stable sort: \<open>a\<close> stays before \<open>b\<close> unless \<open>cmp(a, b) > 0\<close>.
  Insertion from the right keeps elements that compare equal in their order.
\<close>

fun insort_by :: "('a \<Rightarrow> 'a \<Rightarrow> int) \<Rightarrow> 'a \<Rightarrow> 'a list \<Rightarrow> 'a list" where
  "insort_by cmp x [] = [x]"
| "insort_by cmp x (y # ys) =
     (if cmp x y \<le> 0 then x # y # ys else y # insort_by cmp x ys)"

definition sort_by :: "('a \<Rightarrow> 'a \<Rightarrow> int) \<Rightarrow> 'a list \<Rightarrow> 'a list" where
  "sort_by cmp xs = foldr (insort_by cmp) xs []"

text \<open>
  \<open>String.prototype.localeCompare\<close> belongs to the host; it is a parameter
  \<open>lc\<close> of everything that lists. The comparison of code units is one such function.
\<close>

definition codeUnitCompare :: "string \<Rightarrow> string \<Rightarrow> int" where
  "codeUnitCompare a b = (if a = b then 0 else if key_less a b then - 1 else 1)"

section \<open>Listing\<close>

definition normMatch :: "string \<Rightarrow> string" where
  "normMatch pth = (if pth = '''' then '''' else if endsWith pth ''/'' then pth else pth @ ''/'')"

definition dirEntry :: "string \<Rightarrow> metadata" where
  "dirEntry n = \<lparr>name = n, mtype = M_DIR, bytes = None, msize = None, mtime = None\<rparr>"

text \<open>The function given to \<open>map\<close> in \<open>_list\<close>; \<open>None\<close> is \<open>null\<close>.\<close>

definition listMap :: "string \<Rightarrow> bool \<Rightarrow> metadata \<Rightarrow> metadata option" where
  "listMap pth recursive obj =
     (let prefixMatch = startsWith (name obj) pth in
      if name obj = pth then Some obj
      else if prefixMatch then
        (if recursive then Some obj
         else if startsWith (name obj) (normMatch pth) \<and> length (name obj) > length (normMatch pth)
         then (case indexOf (name obj) (CHR ''/'') (length (normMatch pth) + 1) of
                 None \<Rightarrow> Some obj
               | Some nextSlash \<Rightarrow> Some (dirEntry (substring0 (name obj) nextSlash)))
         else None)
      else None)"

text \<open>\<open>foundExact\<close> is assigned inside \<open>map\<close>: the last object named \<open>pth\<close> stays.\<close>

definition foundExact :: "string \<Rightarrow> metadata list \<Rightarrow> metadata option" where
  "foundExact pth objs = foldl (\<lambda>fe obj. if name obj = pth then Some obj else fe) None objs"

text \<open>
  The second \<open>filter\<close>: an entry stays when it is the first one of its name,
  \<open>index === self.findIndex((t) => t.name === value.name)\<close>.
\<close>

definition firstOfName :: "metadata list \<Rightarrow> metadata list" where
  "firstOfName self =
     map snd (filter (\<lambda>iv. findIndex (\<lambda>t. name t = name (snd iv)) self = Some (fst iv))
                     (enumerate 0 self))"

definition filtered :: "(string \<Rightarrow> string \<Rightarrow> int) \<Rightarrow> string \<Rightarrow> bool \<Rightarrow> metadata list \<Rightarrow> metadata list" where
  "filtered lc pth recursive result =
     firstOfName
       (map the (filter (\<lambda>obj. obj \<noteq> None)
          (map (listMap pth recursive)
             (sort_by (\<lambda>o1 o2. lc (name o1) (name o2)) result))))"

text \<open>
  A visitor runs on a state and either returns (\<open>True\<close>) or does not: when the awaited
  promise of the visitor is rejected, the \<open>async\<close> handler \<open>onsuccess\<close> stops there and the
  promise of \<open>_list\<close> is never settled. The state holds the object store and whatever
  else the visitor changes.
\<close>

type_synonym 'u visitor = "metadata \<Rightarrow> store \<times> 'u \<Rightarrow> bool \<times> (store \<times> 'u)"

text \<open>\<open>for (const f of ...) await visitor(f)\<close>\<close>

fun visitAll :: "'u visitor \<Rightarrow> metadata list \<Rightarrow> store \<times> 'u \<Rightarrow> bool \<times> (store \<times> 'u)" where
  "visitAll v [] s = (True, s)"
| "visitAll v (f # fs) s =
     (case v f s of (ok, s') \<Rightarrow> if ok then visitAll v fs s' else (False, s'))"

text \<open>\<open>_list(pth, recursive, visitor)\<close>, named \<open>list_impl\<close> here.\<close>

definition list_impl ::
  "(string \<Rightarrow> string \<Rightarrow> int) \<Rightarrow> string \<Rightarrow> bool \<Rightarrow> 'u visitor option \<Rightarrow> store \<times> 'u
     \<Rightarrow> metadata list promise \<times> (store \<times> 'u)" where
  "list_impl lc pth recursive visitor s =
     (let result = getAll (fst s);
          fe = foundExact pth (sort_by (\<lambda>o1 o2. lc (name o1) (name o2)) result);
          fl = filtered lc pth recursive result
      in if fe \<noteq> None \<and> \<not> recursive then
           (case visitor of
              None \<Rightarrow> (Resolved [the fe], s)
            | Some v \<Rightarrow> (case v (the fe) s of
                          (ok, s') \<Rightarrow> (if ok then Resolved [the fe] else Pending, s')))
         else
           (case visitor of
              None \<Rightarrow> (Resolved fl, s)
            | Some v \<Rightarrow> (case visitAll v (filter (\<lambda>obj. mtype obj = M_FILE) fl) s of
                          (ok, s') \<Rightarrow> (if ok then Resolved fl else Pending, s'))))"

section \<open>Writing\<close>

text \<open>
  A readable stream is the list of the events it emits. A chunk is a \<open>Buffer\<close>; the
  handler of \<open>data\<close> tests \<open>if (data)\<close>, so an event may carry no chunk (\<open>None\<close>).
\<close>

datatype streamEvent = Data "byte list option" | Error error | End

text \<open>
  A generator is the list of the values of its \<open>next()\<close> calls; once the list is used up
  the generator is done and \<open>next().value\<close> is \<open>undefined\<close> (\<open>None\<close>) for ever. A
  \<open>Buffer\<close> is an object, so every \<open>Some c\<close> is truthy, also \<open>Some []\<close>.
\<close>

type_synonym generator = "byte list option list"

datatype writeSource = Readable "streamEvent list" | Generator generator

text \<open>
  \<open>streamHandler\<close>: \<open>resolve2(0)\<close> at \<open>end\<close>, \<open>reject2(e)\<close> at \<open>error\<close>; a stream that
  emits neither leaves the promise unsettled.
\<close>

fun streamHandler :: "streamEvent list \<Rightarrow> byte list \<Rightarrow> nat promise \<times> byte list" where
  "streamHandler [] buf = (Pending, buf)"
| "streamHandler (Data d # es) buf =
     streamHandler es (case d of Some c \<Rightarrow> buf @ c | None \<Rightarrow> buf)"
| "streamHandler (Error e # es) buf = (Rejected e, buf)"
| "streamHandler (End # es) buf = (Resolved 0, buf)"

definition gen_next :: "generator \<Rightarrow> byte list option \<times> generator" where
  "gen_next g = (case g of [] \<Rightarrow> (None, []) | y # ys \<Rightarrow> (y, ys))"

text \<open>
  \<open>while (chunk || nullCount < 5)\<close>. The result is the array \<open>bytes\<close> of the source,
  \<open>buf\<close> here, and what is left of the generator.
\<close>

function pullLoop ::
  "byte list option \<Rightarrow> nat \<Rightarrow> generator \<Rightarrow> byte list \<Rightarrow> byte list \<times> generator" where
  "pullLoop chunk nullCount g buf =
     (if chunk \<noteq> None \<or> nullCount < 5 then
        pullLoop (fst (gen_next g))
                 (if chunk \<noteq> None then nullCount else nullCount + 1)
                 (snd (gen_next g))
                 (case chunk of Some c \<Rightarrow> buf @ c | None \<Rightarrow> buf)
      else (buf, g))"
  by pat_completeness auto
termination
  by (relation "measure (\<lambda>(chunk, nullCount, g, buf).
        2 * length g + (5 - nullCount) + (if chunk = None then 0 else 1))")
     (auto simp: gen_next_def split: list.splits)

definition pull :: "generator \<Rightarrow> byte list \<times> generator" where
  "pull g = pullLoop (fst (gen_next g)) 0 (snd (gen_next g)) []"

definition writeObject :: "string \<Rightarrow> byte list \<Rightarrow> nat \<Rightarrow> metadata" where
  "writeObject path buf now =
     \<lparr>name = path, mtype = M_FILE, bytes = Some (Bytes buf),
      msize = Some (length buf), mtime = Some now\<rparr>"

text \<open>
  \<open>write(path, generatorOrReadableStream)\<close>; \<open>now\<close> is \<open>Date.now()\<close>. When the awaited
  \<open>streamHandler\<close> is rejected, the \<open>async\<close> executor stops before the transaction and
  the promise of \<open>write\<close> is never settled. It is named \<open>write_impl\<close>
  here.
\<close>

definition write_impl :: "nat \<Rightarrow> store \<Rightarrow> string \<Rightarrow> writeSource \<Rightarrow> nat promise \<times> store" where
  "write_impl now db path src =
     (case src of
        Readable evs \<Rightarrow>
          (case streamHandler evs [] of
             (Resolved _, buf) \<Rightarrow>
               (Resolved (length buf), put db (writeObject path buf now) path)
           | (_, buf) \<Rightarrow> (Pending, db))
      | Generator g \<Rightarrow>
          (let buf = fst (pull g)
           in (Resolved (length buf), put db (writeObject path buf now) path)))"

section \<open>Reading\<close>

text \<open>
  \<open>Buffer.from\<close> of an array of numbers keeps the bytes; of a string it is the UTF-8
  encoding, a parameter \<open>utf8\<close> here.
\<close>

definition payloadLength :: "payload \<Rightarrow> nat" where
  "payloadLength p = (case p of Bytes bs \<Rightarrow> length bs | Strings ss \<Rightarrow> length ss)"

definition decode :: "(string \<Rightarrow> byte list) \<Rightarrow> payload \<Rightarrow> byte list" where
  "decode utf8 p = (case p of Bytes bs \<Rightarrow> bs | Strings ss \<Rightarrow> utf8 (concat ss))"

text \<open>
  What \<open>read\<close> does: the chunks given to \<open>callback\<close> in order, the number of calls of
  \<open>endCallback\<close>, and the promise it returns.
\<close>

record readOutcome =
  chunks :: "byte list list"
  endCalls :: nat
  returned :: "nat promise"

definition read :: "(string \<Rightarrow> byte list) \<Rightarrow> store \<Rightarrow> string \<Rightarrow> bool \<Rightarrow> readOutcome" where
  "read utf8 db path hasEndCallback =
     (case get db path of
        None \<Rightarrow> \<lparr>chunks = [], endCalls = 0, returned = Rejected (MobilettoNotFoundError path)\<rparr>
      | Some r \<Rightarrow>
          (case bytes r of
             None \<Rightarrow> \<lparr>chunks = [], endCalls = 0, returned = Pending\<rparr>
           | Some p \<Rightarrow>
               if payloadLength p > 0 then
                 (let b = decode utf8 p; bytesRead = length b
                  in \<lparr>chunks = [b], endCalls = (if hasEndCallback then 1 else 0),
                      returned = (if bytesRead \<noteq> 0 then Resolved bytesRead else Pending)\<rparr>)
               else \<lparr>chunks = [], endCalls = 0, returned = Pending\<rparr>))"

text \<open>
  \<open>metadata(path)\<close> makes the same request as \<open>read\<close>; when the transaction completes it
  rejects with the not-found error if no object came back, and otherwise resolves with
  the object after \<open>delete data.bytes\<close>.
\<close>

definition metadata :: "store \<Rightarrow> string \<Rightarrow> metadata promise" where
  "metadata db path =
     (case get db path of
        None \<Rightarrow> Rejected (MobilettoNotFoundError path)
      | Some data \<Rightarrow> Resolved (data\<lparr>bytes := None\<rparr>))"

section \<open>Removing\<close>

text \<open>
  \<open>deleteVisitor\<close> works on the store, \<open>deleteErrors\<close> and \<open>deletedFiles\<close>. The test of
  \<open>file.type\<close> settles the promise but does not return, so the transaction runs all the
  same; a promise keeps its first settlement. The requests succeed, so \<open>deleteResult\<close> is
  set when the transaction completes.
\<close>

definition deleteVisitor :: "bool \<Rightarrow> (error list \<times> string list) visitor" where
  "deleteVisitor quiet file s =
     (let db = fst s; deleteErrors = fst (snd s); deletedFiles = snd (snd s);
          path = name file;
          notAFile = MobilettoError (''remove('' @ path @ ''): not a file'');
          settled0 = (if mtype file \<noteq> M_FILE then Some quiet else None);
          deleteErrors0 = (if mtype file \<noteq> M_FILE \<and> \<not> quiet
                           then deleteErrors @ [notAFile] else deleteErrors)
      in case get db path of
           None \<Rightarrow>
             (if quiet then (True, (db, deleteErrors0, deletedFiles))
              else (False, (db, deleteErrors0 @ [MobilettoNotFoundError path], deletedFiles)))
         | Some _ \<Rightarrow>
             ((case settled0 of Some b \<Rightarrow> b | None \<Rightarrow> True),
              (delete db path, deleteErrors0, deletedFiles @ [path])))"

datatype removed = Path string | Paths "string list"

definition remove ::
  "(string \<Rightarrow> string \<Rightarrow> int) \<Rightarrow> store \<Rightarrow> string \<Rightarrow> bool \<Rightarrow> bool \<Rightarrow> removed promise \<times> store" where
  "remove lc db path recursive quiet =
     (case list_impl lc path recursive (Some (deleteVisitor quiet)) (db, ([], [])) of
        (Resolved toDelete, (db', deleteErrors, deletedFiles)) \<Rightarrow>
          (if length toDelete = 0 then
             (if quiet then Resolved (Paths []) else Rejected (MobilettoNotFoundError path))
           else if length deleteErrors = 0 then
             Resolved (if length deletedFiles = 0 then Paths []
                       else if length deletedFiles = 1 then Path (deletedFiles ! 0)
                       else Paths deletedFiles)
           else Rejected (deleteErrors ! 0),
           db')
      | (Rejected e, (db', _)) \<Rightarrow> (Rejected e, db')
      | (Pending, (db', _)) \<Rightarrow> (Pending, db'))"

section \<open>Auxiliary definitions\<close>

text \<open>
  \<open>firstOfName\<close> on the part \<open>xs\<close> of the array \<open>pre @ xs\<close>, for induction on \<open>xs\<close>.
\<close>

definition firstOfNameFrom :: "metadata list \<Rightarrow> metadata list \<Rightarrow> metadata list" where
  "firstOfNameFrom pre xs =
     map snd (filter (\<lambda>iv. findIndex (\<lambda>t. name t = name (snd iv)) (pre @ xs) = Some (fst iv))
                     (enumerate (length pre) xs))"

text \<open>
  The list that \<open>_list\<close> resolves with, as a function of the stored objects.
\<close>

definition listed :: "(string \<Rightarrow> string \<Rightarrow> int) \<Rightarrow> string \<Rightarrow> bool \<Rightarrow> metadata list \<Rightarrow> metadata list" where
  "listed lc pth recursive objs =
     (let fe = foundExact pth (sort_by (\<lambda>o1 o2. lc (name o1) (name o2)) objs)
      in if fe \<noteq> None \<and> \<not> recursive then [the fe] else filtered lc pth recursive objs)"

section \<open>Sorting, searching and the filter of first names\<close>

lemma set_insort_by: "set (insort_by cmp x ys) = insert x (set ys)"
  by (induction ys) auto

lemma set_sort_by: "set (sort_by cmp xs) = set xs"
  by (induction xs) (simp_all add: sort_by_def set_insort_by)

lemma mset_insort_by: "mset (insort_by cmp x ys) = add_mset x (mset ys)"
  by (induction ys) auto

lemma mset_sort_by: "mset (sort_by cmp xs) = mset xs"
  by (induction xs) (simp_all add: sort_by_def mset_insort_by)

lemma distinct_map_sort_by: "distinct (map f (sort_by cmp xs)) = distinct (map f xs)"
proof -
  have "mset (map f (sort_by cmp xs)) = mset (map f xs)"
    by (simp add: mset_sort_by)
  then show ?thesis
    by (rule mset_eq_imp_distinct_iff)
qed

lemma sorted_insort_by:
  assumes tot: "\<And>a b. cmp a b \<le> 0 \<or> cmp b a \<le> 0"
    and trans: "\<And>a b c. cmp a b \<le> 0 \<Longrightarrow> cmp b c \<le> 0 \<Longrightarrow> cmp a c \<le> 0"
  shows "sorted_wrt (\<lambda>a b. cmp a b \<le> 0) ys \<Longrightarrow> sorted_wrt (\<lambda>a b. cmp a b \<le> 0) (insort_by cmp x ys)"
proof (induction ys)
  case Nil
  then show ?case by simp
next
  case (Cons y ys)
  from Cons.prems have below: "\<forall>z\<in>set ys. cmp y z \<le> 0" and tl: "sorted_wrt (\<lambda>a b. cmp a b \<le> 0) ys"
    by simp_all
  show ?case
  proof (cases "cmp x y \<le> 0")
    case True
    have "\<forall>z\<in>set ys. cmp x z \<le> 0"
    proof
      fix z assume "z \<in> set ys"
      with below have "cmp y z \<le> 0" by simp
      with True show "cmp x z \<le> 0" by (rule trans)
    qed
    with True Cons.prems show ?thesis by simp
  next
    case False
    with tot[of x y] have "cmp y x \<le> 0" by simp
    moreover have "sorted_wrt (\<lambda>a b. cmp a b \<le> 0) (insort_by cmp x ys)"
      using tl by (rule Cons.IH)
    ultimately show ?thesis using False below by (simp add: set_insort_by)
  qed
qed

lemma sorted_sort_by:
  assumes tot: "\<And>a b. cmp a b \<le> 0 \<or> cmp b a \<le> 0"
    and trans: "\<And>a b c. cmp a b \<le> 0 \<Longrightarrow> cmp b c \<le> 0 \<Longrightarrow> cmp a c \<le> 0"
  shows "sorted_wrt (\<lambda>a b. cmp a b \<le> 0) (sort_by cmp xs)"
proof (induction xs)
  case Nil
  then show ?case by (simp add: sort_by_def)
next
  case (Cons x xs)
  have "sorted_wrt (\<lambda>a b. cmp a b \<le> 0) (insort_by cmp x (sort_by cmp xs))"
    using tot trans Cons.IH by (rule sorted_insort_by)
  then show ?case by (simp add: sort_by_def)
qed

lemma foundExact_foldl:
  "foldl (\<lambda>fe obj. if name obj = pth then Some obj else fe) acc objs =
     (if filter (\<lambda>obj. name obj = pth) objs = [] then acc
      else Some (last (filter (\<lambda>obj. name obj = pth) objs)))"
  by (induction objs arbitrary: acc) simp_all

lemma foundExact_None: "foundExact pth objs = None \<longleftrightarrow> (\<forall>obj\<in>set objs. name obj \<noteq> pth)"
  by (auto simp: foundExact_def foundExact_foldl filter_empty_conv)

lemma foundExact_Some:
  assumes "foundExact pth objs = Some obj"
  shows "obj \<in> set objs \<and> name obj = pth"
proof -
  let ?fs = "filter (\<lambda>obj. name obj = pth) objs"
  from assms have eq: "(if ?fs = [] then None else Some (last ?fs)) = Some obj"
    unfolding foundExact_def foundExact_foldl .
  have ne: "?fs \<noteq> []"
  proof
    assume "?fs = []"
    with eq show False by (simp only: simp_thms if_True option.distinct)
  qed
  with eq have "last ?fs = obj" by (simp only: simp_thms if_False option.inject)
  moreover from ne have "last ?fs \<in> set ?fs" by (rule last_in_set)
  ultimately have "obj \<in> set ?fs" by simp
  then show ?thesis by simp
qed

lemma foundExact_unique:
  assumes "obj \<in> set objs" "name obj = pth" "\<forall>obj'\<in>set objs. name obj' = pth \<longrightarrow> obj' = obj"
  shows "foundExact pth objs = Some obj"
proof (cases "foundExact pth objs")
  case None
  then have "\<forall>obj\<in>set objs. name obj \<noteq> pth" by (simp only: foundExact_None)
  with assms(1,2) show ?thesis by blast
next
  case (Some r)
  then have "r \<in> set objs \<and> name r = pth" by (rule foundExact_Some)
  with assms(3) have "r = obj" by blast
  with Some show ?thesis by simp
qed

lemma findIndex_None: "findIndex p xs = None \<longleftrightarrow> (\<forall>x\<in>set xs. \<not> p x)"
  by (induction xs) (auto split: option.splits)

lemma findIndex_less: "findIndex p xs = Some i \<Longrightarrow> i < length xs"
  by (induction xs arbitrary: i) (auto split: option.splits if_splits)

lemma findIndex_append:
  "findIndex p (xs @ ys) =
     (case findIndex p xs of Some i \<Rightarrow> Some i
      | None \<Rightarrow> (case findIndex p ys of None \<Rightarrow> None | Some i \<Rightarrow> Some (length xs + i)))"
  by (induction xs) (auto split: option.splits)

lemma findIndex_first:
  "findIndex (\<lambda>t. f t = f x) (pre @ x # xs) = Some (length pre) \<longleftrightarrow> f x \<notin> f ` set pre"
proof (cases "findIndex (\<lambda>t. f t = f x) pre")
  case None
  moreover from None have "f x \<notin> f ` set pre"
    by (auto simp: findIndex_None)
  ultimately show ?thesis by (simp add: findIndex_append)
next
  case (Some i)
  then have "i < length pre" by (rule findIndex_less)
  have "\<not> (\<forall>t\<in>set pre. f t \<noteq> f x)"
    using Some findIndex_None[of "\<lambda>t. f t = f x" pre] by simp
  then have "f x \<in> f ` set pre"
    by (metis imageI)
  with \<open>i < length pre\<close> Some show ?thesis by (simp add: findIndex_append)
qed

lemma firstOfNameFrom_Nil: "firstOfNameFrom pre [] = []"
  by (simp add: firstOfNameFrom_def)

lemma firstOfNameFrom_Cons:
  "firstOfNameFrom pre (x # xs) =
     (if name x \<in> name ` set pre then [] else [x]) @ firstOfNameFrom (pre @ [x]) xs"
proof -
  have "(findIndex (\<lambda>t. name t = name x) (pre @ x # xs) = Some (length pre)) = (name x \<notin> name ` set pre)"
    by (rule findIndex_first)
  then show ?thesis
    by (simp add: firstOfNameFrom_def)
qed


lemma firstOfName_From: "firstOfName xs = firstOfNameFrom [] xs"
  by (simp add: firstOfName_def firstOfNameFrom_def)

lemma firstOfNameFrom_names:
  "name ` set (firstOfNameFrom pre xs) = name ` set xs - name ` set pre"
proof (induction xs arbitrary: pre)
  case Nil
  then show ?case by (simp add: firstOfNameFrom_Nil)
next
  case (Cons x xs)
  show ?case
    unfolding firstOfNameFrom_Cons set_append image_Un Cons.IH by auto
qed

lemma firstOfNameFrom_subset: "set (firstOfNameFrom pre xs) \<subseteq> set xs"
proof (induction xs arbitrary: pre)
  case Nil
  then show ?case by (simp add: firstOfNameFrom_Nil)
next
  case (Cons x xs)
  have "set (firstOfNameFrom (pre @ [x]) xs) \<subseteq> set xs" by (rule Cons.IH)
  then show ?case
    unfolding firstOfNameFrom_Cons by auto
qed

lemma firstOfNameFrom_distinct: "distinct (map name (firstOfNameFrom pre xs))"
proof (induction xs arbitrary: pre)
  case Nil
  then show ?case by (simp add: firstOfNameFrom_Nil)
next
  case (Cons x xs)
  have "name x \<notin> name ` set (firstOfNameFrom (pre @ [x]) xs)"
    by (simp add: firstOfNameFrom_names)
  moreover have "distinct (map name (firstOfNameFrom (pre @ [x]) xs))" by (rule Cons.IH)
  ultimately show ?case by (simp add: firstOfNameFrom_Cons)
qed

lemma firstOfNameFrom_id:
  "distinct (map name xs) \<Longrightarrow> name ` set xs \<inter> name ` set pre = {} \<Longrightarrow> firstOfNameFrom pre xs = xs"
proof (induction xs arbitrary: pre)
  case Nil
  then show ?case by (simp add: firstOfNameFrom_Nil)
next
  case (Cons x xs)
  from Cons.prems have "name x \<notin> name ` set pre" by auto
  moreover from Cons.prems have "distinct (map name xs)" by simp
  moreover from Cons.prems have "name ` set xs \<inter> name ` set (pre @ [x]) = {}" by auto
  ultimately show ?case by (simp add: firstOfNameFrom_Cons Cons.IH)
qed

lemma firstOfName_names: "name ` set (firstOfName xs) = name ` set xs"
  by (simp add: firstOfName_From firstOfNameFrom_names)

lemma firstOfName_subset: "set (firstOfName xs) \<subseteq> set xs"
  unfolding firstOfName_From by (rule firstOfNameFrom_subset)

lemma firstOfName_distinct: "distinct (map name (firstOfName xs))"
  unfolding firstOfName_From by (rule firstOfNameFrom_distinct)

lemma firstOfName_id: "distinct (map name xs) \<Longrightarrow> firstOfName xs = xs"
  unfolding firstOfName_From by (rule firstOfNameFrom_id) simp_all

lemma index_in_Some:
  "index_in c xs = Some i \<Longrightarrow> i < length xs \<and> xs ! i = c \<and> (\<forall>j<i. xs ! j \<noteq> c)"
proof (induction xs arbitrary: i)
  case Nil
  then show ?case by simp
next
  case (Cons x xs)
  show ?case
  proof (cases "x = c")
    case True
    with Cons.prems show ?thesis by simp
  next
    case False
    with Cons.prems obtain k where k: "index_in c xs = Some k" "i = Suc k"
      by (auto split: option.splits)
    from Cons.IH[OF k(1)] False k(2) show ?thesis
      by (auto simp: nth_Cons split: nat.splits)
  qed
qed

lemma index_in_None: "index_in c xs = None \<longleftrightarrow> c \<notin> set xs"
  by (induction xs) (auto split: option.splits)

lemma indexOf_Some:
  assumes "indexOf s c pos = Some i"
  shows "pos \<le> i \<and> i < length s \<and> s ! i = c \<and> (\<forall>j. pos \<le> j \<and> j < i \<longrightarrow> s ! j \<noteq> c)"
proof -
  from assms obtain k where k: "index_in c (drop pos s) = Some k" "i = pos + k"
    by (auto simp: indexOf_def split: option.splits)
  from index_in_Some[OF k(1)]
  have a: "k < length s - pos" and b: "drop pos s ! k = c" and d: "\<forall>j<k. drop pos s ! j \<noteq> c"
    by simp_all
  from a have lt: "pos + k < length s" by simp
  with b have "s ! (pos + k) = c" by simp
  moreover have "\<forall>j. pos \<le> j \<and> j < pos + k \<longrightarrow> s ! j \<noteq> c"
  proof (intro allI impI)
    fix j assume j: "pos \<le> j \<and> j < pos + k"
    then have "j - pos < k" by arith
    with d have "drop pos s ! (j - pos) \<noteq> c" by blast
    moreover from j lt have "drop pos s ! (j - pos) = s ! j" by simp
    ultimately show "s ! j \<noteq> c" by simp
  qed
  ultimately show ?thesis using k(2) lt by simp
qed

lemma normMatch_cases: "normMatch pth = pth \<or> normMatch pth = pth @ ''/''"
  by (simp add: normMatch_def)

lemma normMatch_slash:
  "pth \<noteq> [] \<Longrightarrow> \<not> endsWith pth ''/'' \<Longrightarrow> normMatch pth = pth @ ''/''"
  by (simp add: normMatch_def)

lemma listMap_Some:
  assumes "listMap pth recursive obj = Some e"
  shows "(e = obj \<and> name obj = pth)
       \<or> (e = obj \<and> recursive \<and> startsWith (name obj) pth)
       \<or> (e = obj \<and> \<not> recursive \<and> name obj \<noteq> pth \<and> startsWith (name obj) (normMatch pth)
             \<and> length (name obj) > length (normMatch pth)
             \<and> indexOf (name obj) (CHR ''/'') (length (normMatch pth) + 1) = None)
       \<or> (\<exists>i. e = dirEntry (take i (name obj)) \<and> \<not> recursive \<and> name obj \<noteq> pth
             \<and> startsWith (name obj) (normMatch pth)
             \<and> length (name obj) > length (normMatch pth)
             \<and> indexOf (name obj) (CHR ''/'') (length (normMatch pth) + 1) = Some i)"
  using assms
  by (auto simp: listMap_def Let_def substring0_def split: if_splits option.splits)

lemma filtered_mem:
  assumes "e \<in> set (filtered lc pth recursive objs)"
  shows "\<exists>obj\<in>set objs. listMap pth recursive obj = Some e"
proof -
  let ?m = "map (listMap pth recursive) (sort_by (\<lambda>o1 o2. lc (name o1) (name o2)) objs)"
  from assms have "e \<in> set (map the (filter (\<lambda>obj. obj \<noteq> None) ?m))"
    unfolding filtered_def using firstOfName_subset by blast
  then obtain x where "x \<in> set ?m" "x \<noteq> None" "e = the x" by auto
  then have "Some e \<in> set ?m" by auto
  then show ?thesis by (auto simp: set_sort_by)
qed

lemma listMap_name_ne:
  assumes "pth \<noteq> []" "\<not> endsWith pth ''/''" "listMap pth False obj = Some e"
  shows "name e \<noteq> pth @ ''/''"
proof -
  from assms(1,2) have nm: "normMatch pth = pth @ ''/''" by (rule normMatch_slash)
  from listMap_Some[OF assms(3)] show ?thesis
  proof (elim disjE exE conjE)
    assume "e = obj" "name obj = pth"
    then show ?thesis by simp
  next
    assume "e = obj" "False"
    then show ?thesis by simp
  next
    assume "e = obj" "length (normMatch pth) < length (name obj)"
    then show ?thesis by (auto simp: nm)
  next
    fix i
    assume e: "e = dirEntry (take i (name obj))"
      and i: "indexOf (name obj) CHR ''/'' (length (normMatch pth) + 1) = Some i"
    from indexOf_Some[OF i] have "length (normMatch pth) + 1 \<le> i" "i < length (name obj)"
      by simp_all
    then have "length (name e) > length (pth @ ''/'')"
      using e by (simp add: dirEntry_def nm)
    then show ?thesis by auto
  qed
qed

section \<open>The result of listing\<close>

lemma list_impl_None:
  "list_impl lc pth recursive None s = (Resolved (listed lc pth recursive (getAll (fst s))), s)"
  by (simp add: list_impl_def listed_def Let_def)

lemma list_impl_Resolved:
  assumes "list_impl lc pth recursive visitor s = (Resolved es, s')"
  shows "es = listed lc pth recursive (getAll (fst s))"
proof (cases visitor)
  case None
  with assms show ?thesis by (auto simp: list_impl_None)
next
  case (Some v)
  with assms show ?thesis
    by (auto simp: list_impl_def listed_def Let_def split: if_splits prod.splits)
qed

lemma listed_mem:
  assumes "e \<in> set (listed lc pth recursive objs)"
  shows "\<exists>obj\<in>set objs. listMap pth recursive obj = Some e"
proof (cases "foundExact pth (sort_by (\<lambda>o1 o2. lc (name o1) (name o2)) objs) \<noteq> None \<and> \<not> recursive")
  case True
  then obtain r where r: "foundExact pth (sort_by (\<lambda>o1 o2. lc (name o1) (name o2)) objs) = Some r"
    by auto
  with True assms have "e = r" by (simp add: listed_def)
  moreover from foundExact_Some[OF r] have "r \<in> set objs" "name r = pth"
    by (simp_all add: set_sort_by)
  ultimately show ?thesis by (auto simp: listMap_def)
next
  case False
  with assms have "e \<in> set (filtered lc pth recursive objs)"
    by (auto simp: listed_def Let_def)
  then show ?thesis by (rule filtered_mem)
qed

lemma listed_exact:
  assumes "obj \<in> set objs" "name obj = pth" "\<forall>obj'\<in>set objs. name obj' = pth \<longrightarrow> obj' = obj"
  shows "foundExact pth (sort_by cmp objs) = Some obj"
proof (rule foundExact_unique)
  show "obj \<in> set (sort_by cmp objs)" using assms(1) by (simp only: set_sort_by)
  show "name obj = pth" by fact
  show "\<forall>obj'\<in>set (sort_by cmp objs). name obj' = pth \<longrightarrow> obj' = obj"
    using assms(3) by (simp only: set_sort_by)
qed

lemma startsWith_normMatch: "startsWith s (normMatch pth) \<Longrightarrow> startsWith s pth"
  using normMatch_cases[of pth] by (auto simp: startsWith_def dest: append_prefixD)

lemma list_impl_empty:
  assumes "listed lc pth recursive (getAll (fst s)) = []"
  shows "list_impl lc pth recursive visitor s = (Resolved [], s)"
proof -
  let ?fe = "foundExact pth (sort_by (\<lambda>o1 o2. lc (name o1) (name o2)) (getAll (fst s)))"
  from assms have a: "\<not> (?fe \<noteq> None \<and> \<not> recursive)"
    by (auto simp: listed_def Let_def split: if_splits)
  with assms have b: "filtered lc pth recursive (getAll (fst s)) = []"
    by (auto simp: listed_def Let_def split: if_splits)
  show ?thesis
  proof (cases visitor)
    case None
    with assms show ?thesis by (simp add: list_impl_None)
  next
    case (Some v)
    with a b show ?thesis by (auto simp: list_impl_def Let_def)
  qed
qed

section \<open>Claims about listing\<close>

text \<open>
  C10: for a non-empty path \<open>pth\<close> that does not end in a separator, a stored object
  named \<open>pth @ ''/''\<close> maps to \<open>null\<close>, and whenever the non-recursive listing of \<open>pth\<close>
  resolves, with any visitor, the object is not in the result and no entry of the result,
  file or directory, has its name.
\<close>

theorem C10_slash_record_excluded:
  assumes "pth \<noteq> []" and "\<not> endsWith pth ''/''"
    and "obj \<in> set (getAll (fst s))" and "name obj = pth @ ''/''"
  shows "listMap pth False obj = None \<and>
         (\<forall>visitor es s'. list_impl lc pth False visitor s = (Resolved es, s') \<longrightarrow>
            obj \<notin> set es \<and> (\<forall>e\<in>set es. name e \<noteq> pth @ ''/''))"
proof -
  have none: "listMap pth False obj = None"
    using assms(1,2,4) by (simp add: listMap_def normMatch_slash startsWith_def)
  have "\<forall>e\<in>set es. name e \<noteq> pth @ ''/''"
    if "list_impl lc pth False visitor s = (Resolved es, s')" for visitor es s'
  proof
    fix e assume "e \<in> set es"
    with that have "e \<in> set (listed lc pth False (getAll (fst s)))"
      using list_impl_Resolved by blast
    then obtain x where "listMap pth False x = Some e" using listed_mem by blast
    with assms(1,2) show "name e \<noteq> pth @ ''/''" by (rule listMap_name_ne)
  qed
  with none assms(4) show ?thesis by blast
qed

theorem C10_slash_record_excluded_witness:
  "listMap ''a'' False (writeObject ''a/'' [1] 0) = None \<and>
   list_impl codeUnitCompare ''a'' False (None :: unit visitor option)
     ([(''a/'', writeObject ''a/'' [1] 0), (''a/b'', writeObject ''a/b'' [2] 0)], ())
     = (Resolved [writeObject ''a/b'' [2] 0],
        ([(''a/'', writeObject ''a/'' [1] 0), (''a/b'', writeObject ''a/b'' [2] 0)], ())) \<and>
   writeObject ''a/'' [1] 0 \<notin> set [writeObject ''a/b'' [2] 0]"
proof -
  have l: "list_impl codeUnitCompare ''a'' False (None :: unit visitor option)
     ([(''a/'', writeObject ''a/'' [1] 0), (''a/b'', writeObject ''a/b'' [2] 0)], ())
     = (Resolved [writeObject ''a/b'' [2] 0],
        ([(''a/'', writeObject ''a/'' [1] 0), (''a/b'', writeObject ''a/b'' [2] 0)], ()))"
    by code_simp
  have h1: "''a'' \<noteq> []" by simp
  have h2: "\<not> endsWith ''a'' ''/''" by (simp add: endsWith_def)
  have h3: "writeObject ''a/'' [1] 0 \<in> set (getAll (fst
     ([(''a/'', writeObject ''a/'' [1] 0), (''a/b'', writeObject ''a/b'' [2] 0)], ())))"
    by (simp add: getAll_def)
  have h4: "name (writeObject ''a/'' [1] 0) = ''a'' @ ''/''" by (simp add: writeObject_def)
  from C10_slash_record_excluded[OF h1 h2 h3 h4, of codeUnitCompare] l
  show ?thesis by blast
qed

text \<open>
  C1: when a stored object is named exactly \<open>pth\<close> (and it is the only one of that name),
  the non-recursive listing of \<open>pth\<close> resolves with the one-element list of that object,
  whatever else is stored. A visitor runs exactly once, on that object and on the state
  at the call; the listing resolves when the visitor returns.
\<close>

theorem C1_exact_match_short_circuit:
  assumes "obj \<in> set (getAll db)" and "name obj = pth"
    and "\<forall>obj'\<in>set (getAll db). name obj' = pth \<longrightarrow> obj' = obj"
  shows "list_impl lc pth False visitor (db, u) =
           (case visitor of
              None \<Rightarrow> (Resolved [obj], (db, u))
            | Some v \<Rightarrow> (if fst (v obj (db, u)) then Resolved [obj] else Pending,
                         snd (v obj (db, u))))"
proof -
  have fe: "foundExact pth (sort_by (\<lambda>o1 o2. lc (name o1) (name o2)) (getAll db)) = Some obj"
    using assms by (rule listed_exact)
  show ?thesis
  proof (cases visitor)
    case None
    with fe show ?thesis by (simp add: list_impl_def)
  next
    case (Some v)
    with fe show ?thesis by (simp add: list_impl_def case_prod_beta)
  qed
qed

text \<open>
  The theorem of C1 at a store with the file \<open>a\<close> and two more files that have \<open>a\<close> as a
  prefix; the visitor records the names it is given.
\<close>

theorem C1_exact_match_short_circuit_witness:
  "list_impl codeUnitCompare ''a'' False (Some (\<lambda>f s. (True, (fst s, snd s @ [name f]))))
     ([(''a'', writeObject ''a'' [1] 0), (''a/b'', writeObject ''a/b'' [2] 0),
       (''ab'', writeObject ''ab'' [3] 0)], [])
     = (Resolved [writeObject ''a'' [1] 0],
        ([(''a'', writeObject ''a'' [1] 0), (''a/b'', writeObject ''a/b'' [2] 0),
          (''ab'', writeObject ''ab'' [3] 0)], [''a'']))"
proof -
  let ?db = "[(''a'', writeObject ''a'' [1] 0), (''a/b'', writeObject ''a/b'' [2] 0),
       (''ab'', writeObject ''ab'' [3] 0)]"
  have h1: "writeObject ''a'' [1] 0 \<in> set (getAll ?db)" by code_simp
  have h2: "name (writeObject ''a'' [1] 0) = ''a''" by code_simp
  have h3: "\<forall>obj'\<in>set (getAll ?db). name obj' = ''a'' \<longrightarrow> obj' = writeObject ''a'' [1] 0"
    by code_simp
  show ?thesis
    unfolding C1_exact_match_short_circuit[OF h1 h2 h3] by (simp add: h2)
qed

text \<open>
  C3 as stated fails: for the file \<open>a/x.txt\<close> and the empty path the separator is found at
  index 1, and the directory entry is named \<open>a\<close>, not \<open>a/\<close>.
\<close>

theorem C3_directory_name_counterexample:
  "list_impl codeUnitCompare '''' False (None :: unit visitor option)
     ([(''a/x.txt'', writeObject ''a/x.txt'' [1] 0)], ())
     = (Resolved [dirEntry ''a''], ([(''a/x.txt'', writeObject ''a/x.txt'' [1] 0)], ())) \<and>
   indexOf ''a/x.txt'' (CHR ''/'') (length (normMatch '''') + 1) = Some 1 \<and>
   name (dirEntry ''a'') \<noteq> take (1 + 1) ''a/x.txt'' \<and>
   \<not> endsWith (name (dirEntry ''a'')) ''/''"
  by code_simp

text \<open>
  C3, amended: in the non-recursive listing, for an object whose name extends beyond the
  normalized prefix and has a separator at an index \<open>nextSlash\<close> found from the index after
  the first character past the prefix, the directory entry is named by the characters
  before \<open>nextSlash\<close>: the name stops before the separator, and the name followed by the
  separator is the prefix of the object's name of length \<open>nextSlash + 1\<close>.
\<close>

theorem C3_directory_name:
  assumes "name obj \<noteq> pth" and "startsWith (name obj) (normMatch pth)"
    and "length (name obj) > length (normMatch pth)"
    and "indexOf (name obj) (CHR ''/'') (length (normMatch pth) + 1) = Some nextSlash"
  shows "listMap pth False obj = Some (dirEntry (take nextSlash (name obj))) \<and>
         name (dirEntry (take nextSlash (name obj))) = take nextSlash (name obj) \<and>
         length (name (dirEntry (take nextSlash (name obj)))) = nextSlash \<and>
         take (nextSlash + 1) (name obj) = name (dirEntry (take nextSlash (name obj))) @ ''/'' \<and>
         length (normMatch pth) < nextSlash"
proof -
  from indexOf_Some[OF assms(4)]
  have i: "length (normMatch pth) + 1 \<le> nextSlash" "nextSlash < length (name obj)"
    "name obj ! nextSlash = CHR ''/''"
    by simp_all
  have "listMap pth False obj = Some (dirEntry (take nextSlash (name obj)))"
    using assms startsWith_normMatch[OF assms(2)]
    by (simp add: listMap_def substring0_def)
  moreover have "take (nextSlash + 1) (name obj) = take nextSlash (name obj) @ ''/''"
    using i(2,3) by (simp add: take_Suc_conv_app_nth)
  ultimately show ?thesis using i by (simp add: dirEntry_def)
qed

text \<open>
  The theorem of C3 at the file \<open>a/b/c\<close> and the path \<open>a\<close>: the entry is named \<open>a/b\<close>.
\<close>

theorem C3_directory_name_witness:
  "listMap ''a'' False (writeObject ''a/b/c'' [1] 0) = Some (dirEntry ''a/b'') \<and>
   take (3 + 1) ''a/b/c'' = name (dirEntry ''a/b'') @ ''/''"
proof -
  have h1: "name (writeObject ''a/b/c'' [1] 0) \<noteq> ''a''" by code_simp
  have h2: "startsWith (name (writeObject ''a/b/c'' [1] 0)) (normMatch ''a'')" by code_simp
  have h3: "length (name (writeObject ''a/b/c'' [1] 0)) > length (normMatch ''a'')" by code_simp
  have h4: "indexOf (name (writeObject ''a/b/c'' [1] 0)) (CHR ''/'') (length (normMatch ''a'') + 1) = Some 3"
    by code_simp
  have n: "name (writeObject ''a/b/c'' [1] 0) = ''a/b/c''" by (simp add: writeObject_def)
  from C3_directory_name[OF h1 h2 h3 h4] show ?thesis
    unfolding n by simp
qed

section \<open>Claims about reading and removing\<close>

text \<open>
  C9: for a stored object whose \<open>bytes\<close> array has length zero, \<open>read\<close> gives no chunk
  to the callback, does not call the end callback, and its promise is neither resolved
  with a byte count nor rejected with the not-found error: it stays unsettled.
\<close>

theorem C9_empty_payload_read_never_settles:
  assumes "get db path = Some r" and "bytes r = Some p" and "payloadLength p = 0"
  shows "read utf8 db path hasEndCallback = \<lparr>chunks = [], endCalls = 0, returned = Pending\<rparr>"
  using assms by (simp add: read_def)

text \<open>
  The theorem of C9 at the object that \<open>write\<close> stores for an empty buffer.
\<close>

theorem C9_empty_payload_read_never_settles_witness:
  "read (\<lambda>s. []) [(''p'', writeObject ''p'' [] 0)] ''p'' True
     = \<lparr>chunks = [], endCalls = 0, returned = Pending\<rparr>"
proof -
  have h1: "get [(''p'', writeObject ''p'' [] 0)] ''p'' = Some (writeObject ''p'' [] 0)"
    by (simp add: get_def)
  have h2: "bytes (writeObject ''p'' [] 0) = Some (Bytes [])" by (simp add: writeObject_def)
  have h3: "payloadLength (Bytes []) = 0" by (simp add: payloadLength_def)
  from C9_empty_payload_read_never_settles[OF h1 h2 h3] show ?thesis .
qed

text \<open>
  C8: when the listing of \<open>pth\<close> is empty, \<open>remove\<close> is rejected with the not-found
  error of \<open>pth\<close> unless \<open>quiet\<close>, and resolves with the empty list when \<open>quiet\<close>; the store
  is unchanged in both cases.
\<close>

theorem C8_remove_nothing_matched:
  assumes "fst (list_impl lc pth recursive (None :: unit visitor option) (db, ())) = Resolved []"
  shows "remove lc db pth recursive False = (Rejected (MobilettoNotFoundError pth), db) \<and>
         remove lc db pth recursive True = (Resolved (Paths []), db)"
proof -
  from assms have "listed lc pth recursive (getAll db) = []"
    by (simp add: list_impl_None)
  then have "list_impl lc pth recursive (Some (deleteVisitor quiet)) (db, ([], []))
      = (Resolved [], (db, ([], [])))" for quiet
    using list_impl_empty[of lc pth recursive "(db, ([], []))"] by simp
  then show ?thesis by (simp add: remove_def)
qed

text \<open>
  The theorem of C8 at a store with one file and the path \<open>missing\<close>.
\<close>

theorem C8_remove_nothing_matched_witness:
  "remove codeUnitCompare [(''a/x.txt'', writeObject ''a/x.txt'' [1] 0)] ''missing'' False False
     = (Rejected (MobilettoNotFoundError ''missing''), [(''a/x.txt'', writeObject ''a/x.txt'' [1] 0)]) \<and>
   remove codeUnitCompare [(''a/x.txt'', writeObject ''a/x.txt'' [1] 0)] ''missing'' False True
     = (Resolved (Paths []), [(''a/x.txt'', writeObject ''a/x.txt'' [1] 0)])"
proof -
  have h: "fst (list_impl codeUnitCompare ''missing'' False (None :: unit visitor option)
             ([(''a/x.txt'', writeObject ''a/x.txt'' [1] 0)], ())) = Resolved []"
    by code_simp
  from C8_remove_nothing_matched[OF h] show ?thesis .
qed

section \<open>The pull loop and the store\<close>

lemma pullLoop_Some:
  "pullLoop (Some c) n g buf = pullLoop (fst (gen_next g)) n (snd (gen_next g)) (buf @ c)"
  by (subst pullLoop.simps) simp

lemma pullLoop_None_lt:
  "n < 5 \<Longrightarrow> pullLoop None n g buf = pullLoop (fst (gen_next g)) (n + 1) (snd (gen_next g)) buf"
  by (subst pullLoop.simps) simp

lemma pullLoop_None_ge: "\<not> n < 5 \<Longrightarrow> pullLoop None n g buf = (buf, g)"
  by (subst pullLoop.simps) simp

lemma pullLoop_exhausted: "pullLoop None n [] buf = (buf, [])"
proof (induction "5 - n" arbitrary: n)
  case 0
  then show ?case by (simp add: pullLoop_None_ge)
next
  case (Suc k)
  then have "n < 5" and "k = 5 - (n + 1)" by simp_all
  with Suc.hyps(1)[of "n + 1"] show ?case
    by (simp add: pullLoop_None_lt gen_next_def)
qed

lemma pull_all:
  "length (filter (\<lambda>y. y = None) g) \<le> 5 - n \<Longrightarrow> n \<le> 5 \<Longrightarrow>
   pullLoop (fst (gen_next g)) n (snd (gen_next g)) buf
     = (buf @ concat (map the (filter (\<lambda>y. y \<noteq> None) g)), [])"
proof (induction g arbitrary: n buf)
  case Nil
  then show ?case by (simp add: gen_next_def pullLoop_exhausted)
next
  case (Cons y ys)
  show ?case
  proof (cases y)
    case None
    with Cons.prems have "n < 5" and "length (filter (\<lambda>y. y = None) ys) \<le> 5 - (n + 1)" and "n + 1 \<le> 5"
      by simp_all
    with Cons.IH[of "n + 1" buf] None show ?thesis
      by (simp add: gen_next_def pullLoop_None_lt)
  next
    case (Some c)
    with Cons.prems have "length (filter (\<lambda>y. y = None) ys) \<le> 5 - n"
      by simp
    with Cons.IH[of n "buf @ c"] Cons.prems(2) Some show ?thesis
      by (simp add: gen_next_def pullLoop_Some)
  qed
qed

lemma pull_stops:
  "length (filter (\<lambda>y. y = None) pre) = 5 - n \<Longrightarrow> n \<le> 5 \<Longrightarrow>
   pullLoop (fst (gen_next (pre @ None # rest))) n (snd (gen_next (pre @ None # rest))) buf
     = (buf @ concat (map the (filter (\<lambda>y. y \<noteq> None) pre)), rest)"
proof (induction pre arbitrary: n buf)
  case Nil
  then have "\<not> n < 5" by simp
  then show ?case by (simp add: gen_next_def pullLoop_None_ge)
next
  case (Cons y ys)
  show ?case
  proof (cases y)
    case None
    with Cons.prems have "n < 5" and "length (filter (\<lambda>y. y = None) ys) = 5 - (n + 1)" and "n + 1 \<le> 5"
      by auto
    with Cons.IH[of "n + 1" buf] None show ?thesis
      by (simp add: gen_next_def pullLoop_None_lt)
  next
    case (Some c)
    with Cons.prems have "length (filter (\<lambda>y. y = None) ys) = 5 - n"
      by simp
    with Cons.IH[of n "buf @ c"] Cons.prems(2) Some show ?thesis
      by (simp add: gen_next_def pullLoop_Some)
  qed
qed

lemma map_of_delete: "map_of (delete db k) = (map_of db)(k := None)"
  by (induction db) (auto simp: delete_def)

lemma map_of_insert_key: "map_of (insert_key k v db) k = Some v" if "map_of db k = None"
  using that by (induction db) (auto split: if_splits)

lemma map_of_insert_key_other: "k' \<noteq> k \<Longrightarrow> map_of (insert_key k v db) k' = map_of db k'"
  by (induction db) auto

lemma get_put: "get (put db v k) k' = (if k' = k then Some v else get db k')"
  by (simp add: get_def put_def map_of_insert_key map_of_insert_key_other map_of_delete)

lemma streamHandler_events:
  "streamHandler (map Data ds @ [End]) buf
     = (Resolved 0, buf @ concat (map the (filter (\<lambda>d. d \<noteq> None) ds)))"
proof (induction ds arbitrary: buf)
  case Nil
  then show ?case by simp
next
  case (Cons d ds)
  then show ?case by (cases d) simp_all
qed

lemma pull_few_absent:
  "length (filter (\<lambda>y. y = None) g) \<le> 5 \<Longrightarrow>
   pull g = (concat (map the (filter (\<lambda>y. y \<noteq> None) g)), [])"
  using pull_all[of g 0 "[]"] by (simp add: pull_def)

text \<open>
  What \<open>write\<close> stores for a generator with at most five absent yields, or for a readable
  stream that ends with \<open>end\<close>: the chunks in order, whatever absent values lie between.
\<close>

lemma write_impl_chunks:
  assumes "src = Generator ys \<and> length (filter (\<lambda>y. y = None) ys) \<le> 5
         \<or> src = Readable (map Data ys @ [End])"
  shows "write_impl now db path src
           = (Resolved (length (concat (map the (filter (\<lambda>y. y \<noteq> None) ys)))),
              put db (writeObject path (concat (map the (filter (\<lambda>y. y \<noteq> None) ys))) now) path)"
  using assms
  by (auto simp: write_impl_def pull_few_absent streamHandler_events Let_def)

text \<open>
  When these bytes are not empty, \<open>read\<close> of the same path gives them to the callback as
  one chunk, calls the end callback when there is one, and resolves with their number;
  \<open>metadata\<close> resolves with the object without its bytes.
\<close>

lemma write_then_read_nonempty:
  assumes "src = Generator ys \<and> length (filter (\<lambda>y. y = None) ys) \<le> 5
         \<or> src = Readable (map Data ys @ [End])"
    and "buf = concat (map the (filter (\<lambda>y. y \<noteq> None) ys))"
    and "buf \<noteq> []"
  shows "fst (write_impl now db path src) = Resolved (length buf) \<and>
         read utf8 (snd (write_impl now db path src)) path hasEndCallback
           = \<lparr>chunks = [buf], endCalls = (if hasEndCallback then 1 else 0),
              returned = Resolved (length buf)\<rparr>"
  using assms(3) unfolding assms(2)
  by (simp add: write_impl_chunks[OF assms(1)] read_def get_put writeObject_def
      payloadLength_def decode_def Let_def)

lemma write_then_metadata:
  assumes "src = Generator ys \<and> length (filter (\<lambda>y. y = None) ys) \<le> 5
         \<or> src = Readable (map Data ys @ [End])"
    and "buf = concat (map the (filter (\<lambda>y. y \<noteq> None) ys))"
  shows "metadata (snd (write_impl now db path src)) path
           = Resolved \<lparr>name = path, mtype = M_FILE, bytes = None,
                        msize = Some (length buf), mtime = Some now\<rparr>"
  unfolding assms(2)
  by (simp add: write_impl_chunks[OF assms(1)] metadata_def get_put writeObject_def)

lemma write_then_read_nonempty_example:
  "fst (write_impl 7 [(''q'', writeObject ''q'' [9] 0)] ''p''
          (Generator [Some [1, 2], None, Some [3]])) = Resolved 3 \<and>
   read (\<lambda>s. []) (snd (write_impl 7 [(''q'', writeObject ''q'' [9] 0)] ''p''
       (Generator [Some [1, 2], None, Some [3]]))) ''p'' True
     = \<lparr>chunks = [[1, 2, 3]], endCalls = 1, returned = Resolved 3\<rparr>"
  by code_simp

section \<open>Claims about writing\<close>

text \<open>
  C4 as stated fails: in this sequence no two absent yields are consecutive, and still
  the loop ends at the sixth absent yield and the chunk after it is never pulled.
\<close>

theorem C4_consecutive_counterexample:
  "pull [None, Some [1], None, Some [2], None, Some [3], None, Some [4], None, Some [5],
         None, Some [6]]
     = ([1, 2, 3, 4, 5], [Some [6]]) \<and>
   \<not> sublist [None, None]
         [None, Some [1 :: byte], None, Some [2], None, Some [3], None, Some [4], None, Some [5],
          None, Some [6]] \<and>
   write_impl 0 [] ''p''
     (Generator [None, Some [1], None, Some [2], None, Some [3], None, Some [4], None, Some [5],
                 None, Some [6]])
     = (Resolved 5, [(''p'', writeObject ''p'' [1, 2, 3, 4, 5] 0)])"
  by code_simp

text \<open>
  C4, amended: \<open>nullCount\<close> counts the absent yields of the whole sequence and no chunk
  resets it. A sequence with at most five absent yields is aggregated completely. A
  sequence with a sixth absent yield is finished there: the chunks pulled before it are
  appended in pull order and what comes after it is left in the generator. \<open>write\<close> stores
  the buffer so aggregated.
\<close>

theorem C4_sixth_absent_yield_ends:
  "(length (filter (\<lambda>y. y = None) g) \<le> 5 \<longrightarrow>
      pull g = (concat (map the (filter (\<lambda>y. y \<noteq> None) g)), [])) \<and>
   (\<forall>pre rest. g = pre @ None # rest \<and> length (filter (\<lambda>y. y = None) pre) = 5 \<longrightarrow>
      pull g = (concat (map the (filter (\<lambda>y. y \<noteq> None) pre)), rest)) \<and>
   write_impl now db path (Generator g)
     = (Resolved (length (fst (pull g))), put db (writeObject path (fst (pull g)) now) path)"
proof (intro conjI allI impI)
  assume "length (filter (\<lambda>y. y = None) g) \<le> 5"
  then show "pull g = (concat (map the (filter (\<lambda>y. y \<noteq> None) g)), [])"
    using pull_all[of g 0 "[]"] by (simp add: pull_def)
next
  fix pre rest
  assume "g = pre @ None # rest \<and> length (filter (\<lambda>y. y = None) pre) = 5"
  then show "pull g = (concat (map the (filter (\<lambda>y. y \<noteq> None) pre)), rest)"
    using pull_stops[of pre 0 rest "[]"] by (simp add: pull_def)
next
  show "write_impl now db path (Generator g)
     = (Resolved (length (fst (pull g))), put db (writeObject path (fst (pull g)) now) path)"
    by (simp add: write_impl_def Let_def)
qed

text \<open>
  The theorem of C4 at a sequence with five absent yields, and at the sequence above.
\<close>

theorem C4_sixth_absent_yield_ends_witness:
  "pull [None, None, None, Some [1], None, None, Some [2]] = ([1, 2], []) \<and>
   pull [None, Some [1], None, Some [2], None, Some [3], None, Some [4], None, Some [5],
         None, Some [6]] = ([1, 2, 3, 4, 5], [Some [6]])"
proof -
  let ?g = "[None, None, None, Some [1 :: byte], None, None, Some [2]]"
  let ?pre = "[None, Some [1 :: byte], None, Some [2], None, Some [3], None, Some [4], None, Some [5]]"
  have h1: "length (filter (\<lambda>y. y = None) ?g) \<le> 5" by simp
  have h2: "?pre @ None # [Some [6]] = ?pre @ None # [Some [6]]
      \<and> length (filter (\<lambda>y. y = None) ?pre) = 5" by simp
  from C4_sixth_absent_yield_ends[of ?g] h1
  have a: "pull ?g = (concat (map the (filter (\<lambda>y. y \<noteq> None) ?g)), [])" by blast
  from C4_sixth_absent_yield_ends[of "?pre @ None # [Some [6]]"] h2
  have b: "pull (?pre @ None # [Some [6]]) = (concat (map the (filter (\<lambda>y. y \<noteq> None) ?pre)), [Some [6]])"
    by blast
  from a b show ?thesis by simp
qed

text \<open>
  C6, at the empty byte sequence: \<open>write\<close> stores the object and resolves with 0, and
  \<open>metadata\<close> resolves with the object of size 0, but \<open>read\<close> of the same path gives the
  callback no chunk, calls no end callback and never settles. The object is found, so
  \<open>notFound\<close> stays \<open>null\<close>; the guard \<open>bytes.length > 0\<close> fails, so \<open>bytesRead\<close> stays 0;
  and \<open>if (bytesRead)\<close> takes the count 0 for no count, which leaves the branch that only
  logs a warning. The same holds for a generator that yields nothing and for a stream
  that ends without data.
\<close>

theorem C6_empty_write_then_read_stalls:
  "write_impl 0 [] ''p'' (Generator [Some []]) = (Resolved 0, [(''p'', writeObject ''p'' [] 0)]) \<and>
   metadata (snd (write_impl 0 [] ''p'' (Generator [Some []]))) ''p''
     = Resolved \<lparr>name = ''p'', mtype = M_FILE, bytes = None, msize = Some 0, mtime = Some 0\<rparr> \<and>
   read (\<lambda>s. []) (snd (write_impl 0 [] ''p'' (Generator [Some []]))) ''p'' True
     = \<lparr>chunks = [], endCalls = 0, returned = Pending\<rparr> \<and>
   read (\<lambda>s. []) (snd (write_impl 0 [] ''p'' (Generator []))) ''p'' True
     = \<lparr>chunks = [], endCalls = 0, returned = Pending\<rparr> \<and>
   read (\<lambda>s. []) (snd (write_impl 0 [] ''p'' (Readable [End]))) ''p'' True
     = \<lparr>chunks = [], endCalls = 0, returned = Pending\<rparr>"
  by code_simp

section \<open>Recursive listing and the comparison of code units\<close>

lemma key_less_irrefl: "\<not> key_less a a"
  by (induction a) simp_all

lemma key_less_trans: "key_less a b \<Longrightarrow> key_less b c \<Longrightarrow> key_less a c"
proof (induction a b arbitrary: c rule: key_less.induct)
  case 1
  then show ?case by simp
next
  case (2 y ys)
  then show ?case by (cases c) simp_all
next
  case (3 x xs)
  then show ?case by simp
next
  case (4 x xs y ys)
  show ?case
  proof (cases c)
    case Nil
    with 4 show ?thesis by simp
  next
    case (Cons z zs)
    with "4.prems" "4.IH"[of zs] show ?thesis by auto
  qed
qed

lemma key_less_total: "a \<noteq> b \<Longrightarrow> key_less a b \<or> key_less b a"
proof (induction a b rule: key_less.induct)
  case (4 x xs y ys)
  show ?case
  proof (cases "x = y")
    case True
    with 4 show ?thesis by simp
  next
    case False
    then have "(of_char x :: nat) \<noteq> of_char y" by simp
    then have "(of_char x :: nat) < of_char y \<or> (of_char y :: nat) < of_char x" by arith
    then show ?thesis by auto
  qed
qed simp_all

lemma codeUnitCompare_le: "codeUnitCompare a b \<le> 0 \<longleftrightarrow> a = b \<or> key_less a b"
  by (simp add: codeUnitCompare_def)

lemma codeUnitCompare_total: "\<forall>a b. codeUnitCompare a b \<le> 0 \<or> codeUnitCompare b a \<le> 0"
  using key_less_total by (auto simp: codeUnitCompare_le)

lemma codeUnitCompare_trans:
  "\<forall>a b c. codeUnitCompare a b \<le> 0 \<and> codeUnitCompare b c \<le> 0 \<longrightarrow> codeUnitCompare a c \<le> 0"
  using key_less_trans by (auto simp: codeUnitCompare_le)

lemma store_inv_names: "store_inv db \<Longrightarrow> map name (getAll db) = map fst db"
  by (induction db) (simp_all add: store_inv_def getAll_def)

lemma store_inv_distinct: "store_inv db \<Longrightarrow> distinct (map name (getAll db))"
  using store_inv_names[of db] by (simp add: store_inv_def)

lemma store_inv_file: "store_inv db \<Longrightarrow> obj \<in> set (getAll db) \<Longrightarrow> mtype obj = M_FILE"
  by (auto simp: store_inv_def getAll_def list_all_iff)

lemma listMap_recursive:
  "listMap pth True obj = (if startsWith (name obj) pth then Some obj else None)"
  by (auto simp: listMap_def startsWith_def)

lemma the_filter_map:
  "map the (filter (\<lambda>x. x \<noteq> None) (map (\<lambda>x. if P x then Some x else None) xs)) = filter P xs"
  by (induction xs) simp_all

lemma filtered_recursive:
  assumes "distinct (map name objs)"
  shows "filtered lc pth True objs
           = filter (\<lambda>obj. startsWith (name obj) pth) (sort_by (\<lambda>o1 o2. lc (name o1) (name o2)) objs)"
proof -
  let ?s = "sort_by (\<lambda>o1 o2. lc (name o1) (name o2)) objs"
  have "map (listMap pth True) ?s = map (\<lambda>x. if startsWith (name x) pth then Some x else None) ?s"
    by (simp add: listMap_recursive)
  then have "filtered lc pth True objs = firstOfName (filter (\<lambda>obj. startsWith (name obj) pth) ?s)"
    by (simp only: filtered_def the_filter_map)
  moreover from assms have "distinct (map name ?s)" by (simp only: distinct_map_sort_by)
  then have "distinct (map name (filter (\<lambda>obj. startsWith (name obj) pth) ?s))"
    by (rule distinct_map_filter)
  ultimately show ?thesis by (simp add: firstOfName_id)
qed

lemma listed_recursive:
  assumes "distinct (map name objs)"
  shows "listed lc pth True objs
           = filter (\<lambda>obj. startsWith (name obj) pth) (sort_by (\<lambda>o1 o2. lc (name o1) (name o2)) objs)"
  using filtered_recursive[OF assms] by (simp add: listed_def)

section \<open>Claims about recursive listing and removing\<close>

text \<open>
  C5: for a store that holds files under their own unique names, and a comparison \<open>lc\<close>
  that is total and transitive as \<open>localeCompare\<close> is, the recursive listing of the empty
  path resolves with the stored objects, each once: all of them files, none a
  synthesized directory, in ascending order of their names under \<open>lc\<close>.
\<close>

theorem C5_recursive_root_listing:
  assumes "store_inv db"
    and "\<forall>a b. lc a b \<le> 0 \<or> lc b a \<le> 0"
    and "\<forall>a b c. lc a b \<le> 0 \<and> lc b c \<le> 0 \<longrightarrow> lc a c \<le> 0"
  shows "\<exists>es. list_impl lc '''' True None (db, u) = (Resolved es, (db, u)) \<and>
              mset es = mset (getAll db) \<and>
              (\<forall>e\<in>set es. mtype e = M_FILE) \<and>
              sorted_wrt (\<lambda>e1 e2. lc (name e1) (name e2) \<le> 0) es"
proof -
  let ?cmp = "\<lambda>o1 o2. lc (name o1) (name o2)"
  let ?es = "sort_by ?cmp (getAll db)"
  from assms(1) have "distinct (map name (getAll db))" by (rule store_inv_distinct)
  then have "listed lc '''' True (getAll db) = filter (\<lambda>obj. startsWith (name obj) '''') ?es"
    by (rule listed_recursive)
  then have "list_impl lc '''' True None (db, u) = (Resolved ?es, (db, u))"
    by (simp add: list_impl_None startsWith_def)
  moreover have "mset ?es = mset (getAll db)" by (rule mset_sort_by)
  moreover have "\<forall>e\<in>set ?es. mtype e = M_FILE"
    using store_inv_file[OF assms(1)] by (simp add: set_sort_by)
  moreover have "sorted_wrt (\<lambda>e1 e2. ?cmp e1 e2 \<le> 0) ?es"
  proof (rule sorted_sort_by)
    show "?cmp a b \<le> 0 \<or> ?cmp b a \<le> 0" for a b using assms(2) by blast
    show "?cmp a b \<le> 0 \<Longrightarrow> ?cmp b c \<le> 0 \<Longrightarrow> ?cmp a c \<le> 0" for a b c
      using assms(3) by blast
  qed
  ultimately show ?thesis by blast
qed

text \<open>
  The theorem of C5 at three files stored out of order, compared by code units.
\<close>

theorem C5_recursive_root_listing_witness:
  "list_impl codeUnitCompare '''' True None
     ([(''b.txt'', writeObject ''b.txt'' [1] 0), (''a/y.txt'', writeObject ''a/y.txt'' [2] 0),
       (''a/x.txt'', writeObject ''a/x.txt'' [3] 0)], ())
   = (Resolved [writeObject ''a/x.txt'' [3] 0, writeObject ''a/y.txt'' [2] 0,
                writeObject ''b.txt'' [1] 0],
      ([(''b.txt'', writeObject ''b.txt'' [1] 0), (''a/y.txt'', writeObject ''a/y.txt'' [2] 0),
        (''a/x.txt'', writeObject ''a/x.txt'' [3] 0)], ()))"
proof -
  let ?db = "[(''b.txt'', writeObject ''b.txt'' [1] 0), (''a/y.txt'', writeObject ''a/y.txt'' [2] 0),
       (''a/x.txt'', writeObject ''a/x.txt'' [3] 0)]"
  have h: "store_inv ?db" by code_simp
  from C5_recursive_root_listing[OF h codeUnitCompare_total codeUnitCompare_trans, of "()"]
  obtain es where "list_impl codeUnitCompare '''' True None (?db, ()) = (Resolved es, (?db, ()))"
    by blast
  moreover have "fst (list_impl codeUnitCompare '''' True (None :: unit visitor option) (?db, ()))
      = Resolved [writeObject ''a/x.txt'' [3] 0, writeObject ''a/y.txt'' [2] 0,
                writeObject ''b.txt'' [1] 0]"
    by code_simp
  ultimately show ?thesis by simp
qed

section \<open>The store invariant and the visitor of remove\<close>

text \<open>
  \<open>write\<close> and the deletions of \<open>remove\<close> keep the invariant of the store. On a list of
  files with distinct names that are all stored, the visitor deletes each of them and
  records its name.
\<close>

lemma set_insert_key: "set (insert_key k v db) = insert (k, v) (set db)"
  by (induction db) auto

lemma distinct_insert_key:
  "k \<notin> fst ` set db \<Longrightarrow> distinct (map fst db) \<Longrightarrow> distinct (map fst (insert_key k v db))"
  by (induction db) (auto simp: set_insert_key)

lemma store_inv_delete: "store_inv db \<Longrightarrow> store_inv (delete db k)"
  by (auto simp: store_inv_def delete_def distinct_map_filter list_all_iff)

lemma store_inv_put:
  assumes "store_inv db" "name v = k" "mtype v = M_FILE"
  shows "store_inv (put db v k)"
proof -
  from assms(1) have d: "store_inv (delete db k)" by (rule store_inv_delete)
  have "k \<notin> fst ` set (delete db k)" by (auto simp: delete_def)
  with d have "distinct (map fst (insert_key k v (delete db k)))"
    by (simp add: distinct_insert_key store_inv_def)
  with d assms(2,3) show ?thesis
    by (auto simp: store_inv_def put_def list_all_iff set_insert_key)
qed

lemma store_inv_write: "store_inv db \<Longrightarrow> store_inv (snd (write_impl now db path src))"
  by (auto simp: write_impl_def Let_def writeObject_def intro!: store_inv_put
      split: writeSource.splits prod.splits promise.splits)

lemma store_inv_filter: "store_inv db \<Longrightarrow> store_inv (filter P db)"
  by (auto simp: store_inv_def distinct_map_filter list_all_iff)

lemma deleteVisitor_file:
  assumes "mtype f = M_FILE" "name f \<in> fst ` set db"
  shows "deleteVisitor quiet f (db, errs, del) = (True, (delete db (name f), errs, del @ [name f]))"
proof -
  from assms(2) have "map_of db (name f) \<noteq> None" by (simp add: map_of_eq_None_iff)
  then obtain r where "get db (name f) = Some r" by (auto simp: get_def)
  with assms(1) show ?thesis by (simp add: deleteVisitor_def Let_def)
qed

lemma visitAll_delete:
  assumes "\<forall>f\<in>set fs. mtype f = M_FILE" "distinct (map name fs)" "name ` set fs \<subseteq> fst ` set db"
  shows "visitAll (deleteVisitor quiet) fs (db, errs, del)
           = (True, (filter (\<lambda>kv. fst kv \<notin> name ` set fs) db, errs, del @ map name fs))"
  using assms
proof (induction fs arbitrary: db del)
  case Nil
  then show ?case by simp
next
  case (Cons f fs)
  from Cons.prems have f: "mtype f = M_FILE" "name f \<in> fst ` set db" by auto
  have step: "deleteVisitor quiet f (db, errs, del) = (True, (delete db (name f), errs, del @ [name f]))"
    using f by (rule deleteVisitor_file)
  from Cons.prems have a: "\<forall>f\<in>set fs. mtype f = M_FILE" and b: "distinct (map name fs)"
    and nf: "name f \<notin> name ` set fs"
    by auto
  have c: "name ` set fs \<subseteq> fst ` set (delete db (name f))"
  proof
    fix n assume n: "n \<in> name ` set fs"
    with Cons.prems(3) have "n \<in> fst ` set db" by auto
    then obtain kv where "kv \<in> set db" "fst kv = n" by auto
    moreover from n nf have "n \<noteq> name f" by blast
    ultimately have "kv \<in> set (delete db (name f))" by (simp add: delete_def)
    with \<open>fst kv = n\<close> show "n \<in> fst ` set (delete db (name f))" by force
  qed
  have "filter (\<lambda>kv. fst kv \<notin> name ` set fs) (delete db (name f))
      = filter (\<lambda>kv. fst kv \<notin> name ` set (f # fs)) db"
    by (auto simp: delete_def intro: filter_cong)
  with Cons.IH[OF a b c, of "del @ [name f]"] step show ?case by simp
qed

lemma getAll_filter_listed:
  assumes "store_inv db" "set fs \<subseteq> set (getAll db)"
  shows "getAll (filter (\<lambda>kv. fst kv \<notin> name ` set fs) db) = filter (\<lambda>obj. obj \<notin> set fs) (getAll db)"
proof -
  have eq: "(fst kv \<notin> name ` set fs) = (snd kv \<notin> set fs)" if kv: "kv \<in> set db" for kv
  proof
    assume "fst kv \<notin> name ` set fs"
    moreover from assms(1) kv have "name (snd kv) = fst kv"
      by (auto simp: store_inv_def list_all_iff)
    ultimately show "snd kv \<notin> set fs" by force
  next
    assume n: "snd kv \<notin> set fs"
    show "fst kv \<notin> name ` set fs"
    proof
      assume "fst kv \<in> name ` set fs"
      then obtain e where e: "e \<in> set fs" "name e = fst kv" by auto
      with assms(2) have "e \<in> set (getAll db)" by blast
      moreover from kv have "snd kv \<in> set (getAll db)" by (auto simp: getAll_def)
      moreover from assms(1) kv have "name (snd kv) = fst kv"
        by (auto simp: store_inv_def list_all_iff)
      moreover from assms(1) have "inj_on name (set (getAll db))"
        using store_inv_distinct distinct_map by blast
      ultimately have "e = snd kv" using e(2) by (metis inj_onD)
      with e(1) n show False by simp
    qed
  qed
  have "filter (\<lambda>kv. fst kv \<notin> name ` set fs) db = filter (\<lambda>kv. snd kv \<notin> set fs) db"
    by (rule filter_cong[OF refl]) (rule eq)
  then show ?thesis by (simp add: getAll_def filter_map comp_def)
qed

lemma remove_recursive:
  assumes inv: "store_inv db"
    and files_def: "files = listed lc pth True (getAll db)"
    and ne: "files \<noteq> []"
  shows "remove lc db pth True quiet
           = (Resolved (if length files = 1 then Path (name (files ! 0)) else Paths (map name files)),
              filter (\<lambda>kv. fst kv \<notin> name ` set files) db)"
proof -
  let ?cmp = "\<lambda>o1 o2. lc (name o1) (name o2)"
  from inv have dn: "distinct (map name (getAll db))" by (rule store_inv_distinct)
  then have fl: "files = filter (\<lambda>obj. startsWith (name obj) pth) (sort_by ?cmp (getAll db))"
    unfolding files_def by (rule listed_recursive)
  have fl': "filtered lc pth True (getAll db) = files"
    unfolding fl using dn by (rule filtered_recursive)
  from fl have sub: "set files \<subseteq> set (getAll db)" by (auto simp: set_sort_by)
  with inv have allf: "\<forall>f\<in>set files. mtype f = M_FILE" by (auto dest: store_inv_file)
  then have ff: "filter (\<lambda>obj. mtype obj = M_FILE) files = files" by simp
  from dn have "distinct (map name (sort_by ?cmp (getAll db)))" by (simp only: distinct_map_sort_by)
  then have dist: "distinct (map name files)" unfolding fl by (rule distinct_map_filter)
  from sub inv have keys: "name ` set files \<subseteq> fst ` set db"
    using store_inv_names[OF inv] by (metis image_mono list.set_map)
  have v: "visitAll (deleteVisitor quiet) files (db, [], [])
      = (True, (filter (\<lambda>kv. fst kv \<notin> name ` set files) db, [], [] @ map name files))"
    using allf dist keys by (rule visitAll_delete)
  have l: "list_impl lc pth True (Some (deleteVisitor quiet)) (db, ([], []))
      = (Resolved files, (filter (\<lambda>kv. fst kv \<notin> name ` set files) db, [], map name files))"
    using v by (simp add: list_impl_def Let_def fl' ff)
  from ne have "length files \<noteq> 0" by simp
  moreover have "length files = 1 \<Longrightarrow> map name files ! 0 = name (files ! 0)" by simp
  ultimately show ?thesis
    by (simp add: remove_def l)
qed

text \<open>
  C7: for a store that holds files under their own unique names, when the recursive
  listing of \<open>pth\<close> resolves with the non-empty list \<open>files\<close>, the recursive, non-quiet
  \<open>remove\<close> of \<open>pth\<close> resolves with the one name when \<open>files\<close> has one element and with the
  list of the names, in the order of the listing, otherwise; the store afterwards holds
  the objects that were not listed, and only them; the recursive listing of \<open>pth\<close> on it is
  empty; and the invariant of the store still holds.
\<close>

theorem C7_remove_recursive_enumeration:
  assumes "store_inv db"
    and "list_impl lc pth True None (db, ()) = (Resolved files, (db, ()))"
    and "files \<noteq> []"
  shows "fst (remove lc db pth True False)
           = Resolved (if length files = 1 then Path (name (files ! 0)) else Paths (map name files)) \<and>
         getAll (snd (remove lc db pth True False))
           = filter (\<lambda>obj. obj \<notin> set files) (getAll db) \<and>
         list_impl lc pth True None (snd (remove lc db pth True False), ())
           = (Resolved [], (snd (remove lc db pth True False), ())) \<and>
         store_inv (snd (remove lc db pth True False))"
proof -
  let ?cmp = "\<lambda>o1 o2. lc (name o1) (name o2)"
  let ?db' = "filter (\<lambda>kv. fst kv \<notin> name ` set files) db"
  from assms(2) have files: "files = listed lc pth True (getAll db)"
    by (simp add: list_impl_None)
  from assms(1) have "distinct (map name (getAll db))" by (rule store_inv_distinct)
  then have fl: "files = filter (\<lambda>obj. startsWith (name obj) pth) (sort_by ?cmp (getAll db))"
    unfolding files by (rule listed_recursive)
  then have sub: "set files \<subseteq> set (getAll db)" by (auto simp: set_sort_by)
  have r: "remove lc db pth True False
      = (Resolved (if length files = 1 then Path (name (files ! 0)) else Paths (map name files)), ?db')"
    using assms(1) files assms(3) by (rule remove_recursive)
  have g: "getAll ?db' = filter (\<lambda>obj. obj \<notin> set files) (getAll db)"
    using assms(1) sub by (rule getAll_filter_listed)
  have inv': "store_inv ?db'" using assms(1) by (rule store_inv_filter)
  have "listed lc pth True (getAll ?db') = []"
  proof (rule ccontr)
    assume "listed lc pth True (getAll ?db') \<noteq> []"
    then obtain e es' where "listed lc pth True (getAll ?db') = e # es'"
      by (auto simp: neq_Nil_conv)
    then have "e \<in> set (listed lc pth True (getAll ?db'))" by simp
    then obtain obj where obj: "obj \<in> set (getAll ?db')" "listMap pth True obj = Some e"
      using listed_mem by blast
    from obj(2) have "startsWith (name obj) pth"
      by (simp add: listMap_recursive split: if_splits)
    moreover from obj(1) have "obj \<in> set (getAll db)" "obj \<notin> set files"
      unfolding g by simp_all
    ultimately show False unfolding fl by (simp add: set_sort_by)
  qed
  then have "list_impl lc pth True None (?db', ()) = (Resolved [], (?db', ()))"
    by (simp add: list_impl_None)
  with r g inv' show ?thesis by simp
qed

text \<open>
  The theorem of C7 at a store where two of three files are under \<open>a\<close>.
\<close>

theorem C7_remove_recursive_enumeration_witness:
  "remove codeUnitCompare
     [(''a/x'', writeObject ''a/x'' [1] 0), (''a/y/z'', writeObject ''a/y/z'' [2] 0),
      (''b'', writeObject ''b'' [3] 0)] ''a'' True False
   = (Resolved (Paths [''a/x'', ''a/y/z'']), [(''b'', writeObject ''b'' [3] 0)]) \<and>
   list_impl codeUnitCompare ''a'' True None ([(''b'', writeObject ''b'' [3] 0)], ())
   = (Resolved [], ([(''b'', writeObject ''b'' [3] 0)], ()))"
proof -
  let ?db = "[(''a/x'', writeObject ''a/x'' [1] 0), (''a/y/z'', writeObject ''a/y/z'' [2] 0),
      (''b'', writeObject ''b'' [3] 0)]"
  let ?files = "[writeObject ''a/x'' [1] 0, writeObject ''a/y/z'' [2] 0]"
  have h1: "store_inv ?db" by code_simp
  have h2: "list_impl codeUnitCompare ''a'' True None (?db, ()) = (Resolved ?files, (?db, ()))"
    by code_simp
  have h3: "?files \<noteq> []" by simp
  have s: "snd (remove codeUnitCompare ?db ''a'' True False) = [(''b'', writeObject ''b'' [3] 0)]"
    by code_simp
  from C7_remove_recursive_enumeration[OF h1 h2 h3]
  have "fst (remove codeUnitCompare ?db ''a'' True False) = Resolved (Paths [''a/x'', ''a/y/z''])"
    and "list_impl codeUnitCompare ''a'' True None (snd (remove codeUnitCompare ?db ''a'' True False), ())
      = (Resolved [], (snd (remove codeUnitCompare ?db ''a'' True False), ()))"
    by (simp_all add: writeObject_def)
  then show ?thesis unfolding s by (simp add: prod_eq_iff s)
qed

section \<open>Directories of the non-recursive listing\<close>

lemma listMap_dir:
  assumes "startsWith (name obj) (normMatch pth)"
    and "indexOf (name obj) (CHR ''/'') (length (normMatch pth) + 1) = Some i"
  shows "listMap pth False obj = Some (dirEntry (take i (name obj)))"
proof -
  from indexOf_Some[OF assms(2)]
  have i: "length (normMatch pth) + 1 \<le> i" "i < length (name obj)" by simp_all
  moreover have "length pth \<le> length (normMatch pth)"
    using normMatch_cases[of pth] by auto
  ultimately have "name obj \<noteq> pth" by auto
  with assms i startsWith_normMatch[OF assms(1)] show ?thesis
    by (simp add: listMap_def substring0_def)
qed

lemma set_the_filter:
  "set (map the (filter (\<lambda>x. x \<noteq> None) (map f xs))) = {e. \<exists>x\<in>set xs. f x = Some e}"
  by (induction xs) auto

lemma filtered_set:
  "set (filtered lc pth recursive objs) \<subseteq> {e. \<exists>obj\<in>set objs. listMap pth recursive obj = Some e}"
  using filtered_mem by blast

lemma filtered_names:
  "name ` set (filtered lc pth recursive objs)
     = name ` {e. \<exists>obj\<in>set objs. listMap pth recursive obj = Some e}"
  by (simp only: filtered_def firstOfName_names set_the_filter set_sort_by)

lemma filtered_distinct: "distinct (map name (filtered lc pth recursive objs))"
  by (simp only: filtered_def firstOfName_distinct)

lemma length_filter_one:
  "distinct (map f xs) \<Longrightarrow> y \<in> f ` set xs \<Longrightarrow> length (filter (\<lambda>x. f x = y) xs) = 1"
proof (induction xs)
  case Nil
  then show ?case by simp
next
  case (Cons x xs)
  show ?case
  proof (cases "f x = y")
    case True
    with Cons.prems have "y \<notin> f ` set xs" by auto
    then have "filter (\<lambda>x. f x = y) xs = []" by (auto simp: filter_empty_conv)
    with True show ?thesis by simp
  next
    case False
    with Cons.prems have "y \<in> f ` set xs" and "distinct (map f xs)" by auto
    with Cons.IH False show ?thesis by simp
  qed
qed

lemma firstOfNameFrom_find:
  "e \<in> set (firstOfNameFrom pre xs) \<Longrightarrow> find (\<lambda>x. name x = name e) xs = Some e"
proof (induction xs arbitrary: pre)
  case Nil
  then show ?case by (simp add: firstOfNameFrom_Nil)
next
  case (Cons x xs)
  show ?case
  proof (cases "e \<in> set (firstOfNameFrom (pre @ [x]) xs)")
    case True
    then have "find (\<lambda>x. name x = name e) xs = Some e" by (rule Cons.IH)
    moreover from True have "name e \<in> name ` set (firstOfNameFrom (pre @ [x]) xs)" by blast
    then have "name x \<noteq> name e" by (auto simp: firstOfNameFrom_names)
    ultimately show ?thesis by simp
  next
    case False
    with Cons.prems have "e = x" by (auto simp: firstOfNameFrom_Cons split: if_splits)
    then show ?thesis by simp
  qed
qed

lemma filtered_first:
  "e \<in> set (filtered lc pth recursive objs) \<Longrightarrow>
   find (\<lambda>x. name x = name e)
     (map the (filter (\<lambda>x. x \<noteq> None)
        (map (listMap pth recursive) (sort_by (\<lambda>o1 o2. lc (name o1) (name o2)) objs)))) = Some e"
  unfolding filtered_def firstOfName_From by (rule firstOfNameFrom_find)

lemma listed_no_exact:
  assumes "\<forall>obj\<in>set objs. name obj \<noteq> pth"
  shows "listed lc pth False objs = filtered lc pth False objs"
proof -
  have "foundExact pth (sort_by (\<lambda>o1 o2. lc (name o1) (name o2)) objs) = None"
    using assms by (simp only: foundExact_None set_sort_by)
  then show ?thesis by (simp add: listed_def)
qed

text \<open>
  C2 as stated fails in three ways. With the files \<open>a\<close> and \<open>a/b/c\<close> the listing of \<open>a\<close>
  is the exact match alone, with no directory. With the files \<open>a/b\<close> and \<open>a/b/c\<close> the
  directory entry has the name of the file \<open>a/b\<close>, which comes first, and is dropped as a
  duplicate. The file \<open>a//c\<close> has a further separator after \<open>a/\<close>, but the search starts
  one character later, and the file itself is returned.
\<close>

theorem C2_directory_per_segment_counterexample:
  "list_impl codeUnitCompare ''a'' False (None :: unit visitor option)
     ([(''a'', writeObject ''a'' [1] 0), (''a/b/c'', writeObject ''a/b/c'' [2] 0)], ())
   = (Resolved [writeObject ''a'' [1] 0],
      ([(''a'', writeObject ''a'' [1] 0), (''a/b/c'', writeObject ''a/b/c'' [2] 0)], ())) \<and>
   list_impl codeUnitCompare ''a'' False (None :: unit visitor option)
     ([(''a/b'', writeObject ''a/b'' [1] 0), (''a/b/c'', writeObject ''a/b/c'' [2] 0)], ())
   = (Resolved [writeObject ''a/b'' [1] 0],
      ([(''a/b'', writeObject ''a/b'' [1] 0), (''a/b/c'', writeObject ''a/b/c'' [2] 0)], ())) \<and>
   list_impl codeUnitCompare ''a'' False (None :: unit visitor option)
     ([(''a//c'', writeObject ''a//c'' [1] 0)], ())
   = (Resolved [writeObject ''a//c'' [1] 0], ([(''a//c'', writeObject ''a//c'' [1] 0)], ()))"
  by code_simp

text \<open>
  C2, amended: let the store hold files under their own unique names, none of them named
  exactly \<open>pth\<close>, and let \<open>obj\<close> be a stored object whose name starts with the normalized
  prefix and has a separator at index \<open>i\<close>, found from the index after the first character
  past the prefix. Then in the non-recursive listing of \<open>pth\<close> the names are pairwise
  distinct and each entry is the first of its name in sort order; \<open>obj\<close> itself is not
  returned; exactly one entry has the name of \<open>obj\<close> cut before index \<open>i\<close>, and it is the
  synthesized directory entry when no stored object has that name; and every directory
  entry of the result is the entry of such an object.
\<close>

theorem C2_directory_per_segment:
  assumes "store_inv db"
    and "\<forall>obj\<in>set (getAll db). name obj \<noteq> pth"
    and "list_impl lc pth False None (db, u) = (Resolved es, (db, u))"
    and "obj \<in> set (getAll db)"
    and "startsWith (name obj) (normMatch pth)"
    and "indexOf (name obj) (CHR ''/'') (length (normMatch pth) + 1) = Some i"
  shows "distinct (map name es) \<and>
         (\<forall>e\<in>set es.
            find (\<lambda>x. name x = name e)
              (map the (filter (\<lambda>x. x \<noteq> None)
                 (map (listMap pth False) (sort_by (\<lambda>o1 o2. lc (name o1) (name o2)) (getAll db)))))
              = Some e) \<and>
         obj \<notin> set es \<and>
         length (filter (\<lambda>e. name e = take i (name obj)) es) = 1 \<and>
         ((\<forall>obj'\<in>set (getAll db). name obj' \<noteq> take i (name obj)) \<longrightarrow>
            dirEntry (take i (name obj)) \<in> set es) \<and>
         (\<forall>e\<in>set es. mtype e = M_DIR \<longrightarrow>
            (\<exists>obj'\<in>set (getAll db). \<exists>j.
               startsWith (name obj') (normMatch pth) \<and>
               indexOf (name obj') (CHR ''/'') (length (normMatch pth) + 1) = Some j \<and>
               e = dirEntry (take j (name obj'))))"
proof -
  let ?d = "take i (name obj)"
  from assms(3) have "es = listed lc pth False (getAll db)"
    by (simp add: list_impl_None)
  with assms(2) have es: "es = filtered lc pth False (getAll db)"
    by (simp add: listed_no_exact)
  have dist: "distinct (map name es)"
    unfolding es by (rule filtered_distinct)
  have first: "\<forall>e\<in>set es.
            find (\<lambda>x. name x = name e)
              (map the (filter (\<lambda>x. x \<noteq> None)
                 (map (listMap pth False) (sort_by (\<lambda>o1 o2. lc (name o1) (name o2)) (getAll db)))))
              = Some e"
    unfolding es using filtered_first by blast
  have src: "\<exists>obj'\<in>set (getAll db). listMap pth False obj' = Some e" if "e \<in> set es" for e
    using that unfolding es by (rule filtered_mem)
  have dir: "listMap pth False obj = Some (dirEntry ?d)"
    using assms(5,6) by (rule listMap_dir)
  have isfile: "mtype obj' = M_FILE" if "obj' \<in> set (getAll db)" for obj'
    using assms(1) that by (rule store_inv_file)
  have notin: "obj \<notin> set es"
  proof
    assume "obj \<in> set es"
    then obtain obj' where o': "obj' \<in> set (getAll db)" "listMap pth False obj' = Some obj"
      using src by blast
    from listMap_Some[OF o'(2)] show False
    proof (elim disjE exE conjE)
      assume "obj = obj'" "name obj' = pth"
      with assms(2) o'(1) show False by blast
    next
      assume "obj = obj'" "False"
      then show False by simp
    next
      assume "obj = obj'" "indexOf (name obj') CHR ''/'' (length (normMatch pth) + 1) = None"
      with assms(6) show False by simp
    next
      fix j assume "obj = dirEntry (take j (name obj'))"
      then have "mtype obj = M_DIR" by (simp add: dirEntry_def)
      with isfile[OF assms(4)] show False by simp
    qed
  qed
  have "name (dirEntry ?d) \<in> name ` {e. \<exists>obj'\<in>set (getAll db). listMap pth False obj' = Some e}"
    using assms(4) dir by blast
  then have "?d \<in> name ` set es"
    unfolding es filtered_names by (simp add: dirEntry_def)
  with dist have one: "length (filter (\<lambda>e. name e = ?d) es) = 1"
    by (rule length_filter_one)
  have isdir: "dirEntry ?d \<in> set es" if no: "\<forall>obj'\<in>set (getAll db). name obj' \<noteq> ?d"
  proof -
    from \<open>?d \<in> name ` set es\<close> obtain e where e: "e \<in> set es" "name e = ?d" by auto
    from src[OF e(1)] obtain obj' where o': "obj' \<in> set (getAll db)" "listMap pth False obj' = Some e"
      by blast
    from no o'(1) have ne: "name obj' \<noteq> ?d" by blast
    from listMap_Some[OF o'(2)] have "\<exists>j. e = dirEntry (take j (name obj'))"
      using ne e(2) by auto
    then obtain j where "e = dirEntry (take j (name obj'))" by blast
    with e(2) have "e = dirEntry ?d" by (simp add: dirEntry_def)
    with e(1) show ?thesis by simp
  qed
  have dirs: "\<exists>obj'\<in>set (getAll db). \<exists>j.
               startsWith (name obj') (normMatch pth) \<and>
               indexOf (name obj') (CHR ''/'') (length (normMatch pth) + 1) = Some j \<and>
               e = dirEntry (take j (name obj'))"
    if e: "e \<in> set es" "mtype e = M_DIR" for e
  proof -
    from src[OF e(1)] obtain obj' where o': "obj' \<in> set (getAll db)" "listMap pth False obj' = Some e"
      by blast
    from isfile[OF o'(1)] e(2) have "e \<noteq> obj'" by auto
    with listMap_Some[OF o'(2)] o'(1) show ?thesis by blast
  qed
  from dist first notin one isdir dirs show ?thesis by blast
qed

text \<open>
  The theorem of C2 at two files under \<open>a/b\<close> and one file directly under \<open>a\<close>.
\<close>

theorem C2_directory_per_segment_witness:
  "list_impl codeUnitCompare ''a'' False (None :: unit visitor option)
     ([(''a/b/c'', writeObject ''a/b/c'' [1] 0), (''a/b/d'', writeObject ''a/b/d'' [2] 0),
       (''a/e'', writeObject ''a/e'' [3] 0)], ())
   = (Resolved [dirEntry ''a/b'', writeObject ''a/e'' [3] 0],
      ([(''a/b/c'', writeObject ''a/b/c'' [1] 0), (''a/b/d'', writeObject ''a/b/d'' [2] 0),
        (''a/e'', writeObject ''a/e'' [3] 0)], ())) \<and>
   writeObject ''a/b/c'' [1] 0 \<notin> set [dirEntry ''a/b'', writeObject ''a/e'' [3] 0] \<and>
   length (filter (\<lambda>e. name e = ''a/b'') [dirEntry ''a/b'', writeObject ''a/e'' [3] 0]) = 1 \<and>
   dirEntry ''a/b'' \<in> set [dirEntry ''a/b'', writeObject ''a/e'' [3] 0]"
proof -
  let ?db = "[(''a/b/c'', writeObject ''a/b/c'' [1] 0), (''a/b/d'', writeObject ''a/b/d'' [2] 0),
       (''a/e'', writeObject ''a/e'' [3] 0)]"
  let ?es = "[dirEntry ''a/b'', writeObject ''a/e'' [3] 0]"
  have h1: "store_inv ?db" by code_simp
  have h2: "\<forall>obj\<in>set (getAll ?db). name obj \<noteq> ''a''" by code_simp
  have h3: "list_impl codeUnitCompare ''a'' False None (?db, ()) = (Resolved ?es, (?db, ()))"
    by code_simp
  have h4: "writeObject ''a/b/c'' [1] 0 \<in> set (getAll ?db)" by code_simp
  have h5: "startsWith (name (writeObject ''a/b/c'' [1] 0)) (normMatch ''a'')" by code_simp
  have h6: "indexOf (name (writeObject ''a/b/c'' [1] 0)) (CHR ''/'') (length (normMatch ''a'') + 1) = Some 3"
    by code_simp
  have n: "take 3 (name (writeObject ''a/b/c'' [1] 0)) = ''a/b''" by code_simp
  have h7: "\<forall>obj'\<in>set (getAll ?db). name obj' \<noteq> ''a/b''" by code_simp
  note t = C2_directory_per_segment[OF h1 h2 h3 h4 h5 h6, unfolded n]
  from t have "writeObject ''a/b/c'' [1] 0 \<notin> set ?es" by blast
  moreover from t have "length (filter (\<lambda>e. name e = ''a/b'') ?es) = 1" by blast
  moreover from t h7 have "dirEntry ''a/b'' \<in> set ?es" by blast
  ultimately show ?thesis using h3 by blast
qed

end
